theory Spec2Isabelle
  imports Main "HOL-Library.Sublist" "HOL-Library.AList"
begin

section \<open>Python strings\<close>

text \<open>
  A Python \<open>str\<close> is a sequence of Unicode code points. A code point is a natural
  number here, so that \<open>strip\<close> and \<open>split\<close> see the same characters as Python does.
  \<open>py\<close> turns an ASCII literal of the source into such a sequence.
\<close>

type_synonym pystr = "nat list"

definition py :: "string \<Rightarrow> pystr" where
  "py s = map of_char s"

definition BASE_URL :: pystr where
  "BASE_URL = py ''https://paperswithcode.com''"

text \<open>The characters \<open>str.strip()\<close> and \<open>str.split()\<close> treat as whitespace.\<close>

definition isspace :: "nat \<Rightarrow> bool" where
  "isspace c \<longleftrightarrow>
     (9 \<le> c \<and> c \<le> 13) \<or> (28 \<le> c \<and> c \<le> 32) \<or> c = 133 \<or> c = 160 \<or> c = 5760 \<or>
     (8192 \<le> c \<and> c \<le> 8202) \<or> c = 8232 \<or> c = 8233 \<or> c = 8239 \<or> c = 8287 \<or> c = 12288"

definition strip :: "pystr \<Rightarrow> pystr" where
  "strip s = rev (dropWhile isspace (rev (dropWhile isspace s)))"



text \<open>\<open>s.find(sep)\<close>: the lowest index at which \<open>sep\<close> occurs in \<open>s\<close>, if it occurs.\<close>

fun py_find :: "pystr \<Rightarrow> pystr \<Rightarrow> nat option" where
  "py_find sep [] = (if sep = [] then Some 0 else None)"
| "py_find sep (c # cs) =
     (if prefix sep (c # cs) then Some 0 else map_option Suc (py_find sep cs))"

text \<open>\<open>sep in s\<close>, and \<open>s.split(sep, 1)\<close> for a non-empty \<open>sep\<close>.\<close>

definition contains :: "pystr \<Rightarrow> pystr \<Rightarrow> bool" where
  "contains sep s \<longleftrightarrow> py_find sep s \<noteq> None"

definition split1 :: "pystr \<Rightarrow> pystr \<Rightarrow> pystr list" where
  "split1 sep s =
     (case py_find sep s of
        None \<Rightarrow> [s]
      | Some i \<Rightarrow> [take i s, drop (i + length sep) s])"

definition startswith :: "pystr \<Rightarrow> pystr \<Rightarrow> bool" where
  "startswith s p \<longleftrightarrow> prefix p s"

section \<open>Python exceptions\<close>

datatype py_error =
  AttributeError | TypeError | KeyError | IndexError | ValueError | RequestException

text \<open>\<open>a, b = xs\<close> raises ValueError unless \<open>xs\<close> has exactly two elements.\<close>

fun unpack2 :: "'a list \<Rightarrow> py_error + 'a \<times> 'a" where
  "unpack2 [a, b] = Inr (a, b)"
| "unpack2 _ = Inl ValueError"


section \<open>The static catalog fetch\<close>

subsection \<open>What the parsed HTML holds\<close>








subsection \<open>The rows produced\<close>

record method_row =
  mr_topic_name :: pystr
  mr_method :: pystr
  mr_year :: pystr
  mr_num_papers :: pystr
  mr_paper_name :: "pystr option"


subsection \<open>get_topic_method_info\<close>

definition SEP :: pystr where
  "SEP = [10, 10, 10]"

text \<open>Lines 173 to 176: the first column becomes a method name and a paper name.\<close>

definition split_cell :: "pystr \<Rightarrow> py_error + pystr \<times> pystr option" where
  "split_cell c =
     (if contains SEP c then
        (case unpack2 (split1 SEP c) of
           Inl e \<Rightarrow> Inl e
         | Inr (method_name, paper) \<Rightarrow> Inr (method_name, Some paper))
      else Inr (c, None))"

text \<open>The loop over the rows of the table (lines 169 to 185).\<close>

fun method_rows :: "pystr \<Rightarrow> pystr list list \<Rightarrow> method_row list \<Rightarrow> py_error + method_row list" where
  "method_rows topic_name [] methods_list = Inr methods_list"
| "method_rows topic_name (row # rows) methods_list =
     (let cols = map strip row in
      if length cols \<ge> 3 then
        (case split_cell (cols ! 0) of
           Inl e \<Rightarrow> Inl e
         | Inr (method_name, paper) \<Rightarrow>
             method_rows topic_name rows
               (methods_list @
                [\<lparr>mr_topic_name = topic_name, mr_method = strip method_name,
                  mr_year = cols ! 1, mr_num_papers = cols ! 2, mr_paper_name = paper\<rparr>]))
      else method_rows topic_name rows methods_list)"



subsection \<open>fetch_initial_data\<close>








section \<open>The browser session\<close>

subsection \<open>What a rendered page shows\<close>

text \<open>
  The elements the crawl asks the browser for. A paper page: \<open>div.paper-abstract\<close> with
  its \<open>div.col-md-12\<close> and \<open>p\<close>, and \<open>div.paper-title\<close> with its \<open>h1\<close>.
\<close>

datatype abstract_dom = AbstractAbsent | AbstractNoCol | AbstractNoP | AbstractText pystr

datatype title_dom = TitleAbsent | TitleNoH1 | TitleText pystr

text \<open>
  One rendered state of a page:
  \<^item> \<open>black_links\<close>: the \<open>href\<close> attribute of every \<open>div.black-links a\<close> (\<open>None\<close>: the
    attribute is missing); the wait for these elements times out when there is none;
  \<^item> \<open>next_clickable\<close>: \<open>li.paginate_button.page-item.next\<close> becomes clickable within the
    wait and the click goes through;
  \<^item> \<open>next_disabled\<close>: some element matches \<open>li.paginate_button.page-item.next.disabled\<close>;
  \<^item> \<open>method_image\<close>: for every \<open>div.method-image\<close> its first \<open>a\<close> and that anchor's
    \<open>href\<close> (\<open>None\<close>: no anchor, \<open>Some None\<close>: no \<open>href\<close>).
\<close>

record view =
  black_links :: "pystr option list"
  next_clickable :: bool
  next_disabled :: bool
  paper_abstract :: abstract_dom
  paper_title :: title_dom
  method_image :: "pystr option option list"

definition blank :: view where
  "blank = \<lparr>black_links = [], next_clickable = False, next_disabled = False,
            paper_abstract = AbstractAbsent, paper_title = TitleAbsent, method_image = []\<rparr>"

text \<open>
  A site gives for every URL the states its page goes through: the state after loading,
  then the state after each effective click on the next control (the listing is paginated
  in the page). An URL that shows nothing has no state.
\<close>

type_synonym site = "pystr \<Rightarrow> view list"

subsection \<open>The driver\<close>

record tab =
  tab_url :: pystr
  tab_page :: nat

datatype message =
  ErrorExtractingText | PaperTitle pystr | ExtractedText pystr | ErrorProcessingBlackLinks
| NoAdditionalPage | ErrorWaitingMethodImage | ErrorExtractingMethodImageLink
| ProcessingMethodImageLink pystr | ProcessingTopic nat pystr | TopicLinkMissing nat

datatype event = Get pystr | WindowOpen pystr | Close | Click | Print message

text \<open>
  The session: the window that has the focus, the windows behind it (newest first), and
  what has been done so far, in order. The program only ever opens a window on top of
  the focused one and closes it again.
\<close>

record driver =
  current_window :: tab
  background :: "tab list"
  events :: "event list"

definition setup_driver :: driver where
  "setup_driver =
     \<lparr>current_window = \<lparr>tab_url = py ''data:,'', tab_page = 0\<rparr>, background = [], events = []\<rparr>"

definition emit :: "event \<Rightarrow> driver \<Rightarrow> driver" where
  "emit e d = d\<lparr>events := events d @ [e]\<rparr>"

definition view_at :: "view list \<Rightarrow> nat \<Rightarrow> view" where
  "view_at vs i = (if i < length vs then vs ! i else blank)"

definition cur_view :: "site \<Rightarrow> driver \<Rightarrow> view" where
  "cur_view s d = view_at (s (tab_url (current_window d))) (tab_page (current_window d))"

text \<open>\<open>driver.get(url)\<close>.\<close>

definition get :: "pystr \<Rightarrow> driver \<Rightarrow> driver" where
  "get url d = emit (Get url) (d\<lparr>current_window := \<lparr>tab_url = url, tab_page = 0\<rparr>\<rparr>)"

text \<open>Lines 67 and 68: a new window on \<open>url\<close>, which takes the focus.\<close>

definition window_open :: "pystr \<Rightarrow> driver \<Rightarrow> driver" where
  "window_open url d =
     emit (WindowOpen url)
       (d\<lparr>current_window := \<lparr>tab_url = url, tab_page = 0\<rparr>,
          background := current_window d # background d\<rparr>)"

text \<open>Lines 74 and 75: the focused window is closed and the focus returns to \<open>original\<close>.\<close>

definition close_to :: "tab \<Rightarrow> driver \<Rightarrow> driver" where
  "close_to original_window d =
     emit Close (d\<lparr>current_window := original_window, background := tl (background d)\<rparr>)"

text \<open>
  The click on the next control: it shows the next state of the page, unless the control
  is disabled or there is no further state.
\<close>

definition click :: "site \<Rightarrow> driver \<Rightarrow> driver" where
  "click s d =
     (let t = current_window d in
      emit Click
        (if \<not> next_disabled (cur_view s d) \<and> Suc (tab_page t) < length (s (tab_url t))
         then d\<lparr>current_window := t\<lparr>tab_page := Suc (tab_page t)\<rparr>\<rparr> else d))"

subsection \<open>extract_text_from_page\<close>

text \<open>What the function returns: the pair, or the empty string of its \<open>except\<close> branch.\<close>

datatype extracted = Tuple pystr pystr | EmptyString

definition extract_text_from_page :: "site \<Rightarrow> driver \<Rightarrow> driver \<times> extracted" where
  "extract_text_from_page s d =
     (case (paper_abstract (cur_view s d), paper_title (cur_view s d)) of
        (AbstractText p_elem, TitleText title) \<Rightarrow> (d, Tuple (strip title) (strip p_elem))
      | _ \<Rightarrow> (emit (Print ErrorExtractingText) d, EmptyString))"

subsection \<open>process_black_links\<close>

record page_entry =
  pe_title :: "pystr list"
  pe_text :: "pystr list"

definition resolve :: "pystr \<Rightarrow> pystr" where
  "resolve href = (if startswith href (py ''http'') then href else BASE_URL @ href)"

text \<open>Lines 59 to 63. \<open>href.startswith\<close> raises when the attribute is missing.\<close>

fun hrefs_loop :: "pystr option list \<Rightarrow> pystr list \<Rightarrow> py_error + pystr list" where
  "hrefs_loop [] urls = Inr urls"
| "hrefs_loop (None # elems) urls = Inl AttributeError"
| "hrefs_loop (Some href # elems) urls = hrefs_loop elems (urls @ [resolve href])"

text \<open>\<open>title, text = extract_text_from_page(driver)\<close>.\<close>

fun unpack_extracted :: "extracted \<Rightarrow> py_error + pystr \<times> pystr" where
  "unpack_extracted (Tuple title text) = Inr (title, text)"
| "unpack_extracted EmptyString = Inl ValueError"

text \<open>
  Lines 66 to 76, the loop over the URLs. It returns the session, the dictionary as it
  stands, and the exception that ended the loop, if one did.
\<close>

fun urls_loop ::
  "site \<Rightarrow> tab \<Rightarrow> pystr list \<Rightarrow> driver \<Rightarrow> page_entry \<Rightarrow> driver \<times> page_entry \<times> py_error option" where
  "urls_loop s original_window [] d extracted_texts = (d, extracted_texts, None)"
| "urls_loop s original_window (url # urls) d extracted_texts =
     (case extract_text_from_page s (window_open url d) of (d', r) \<Rightarrow>
      (case unpack_extracted r of
         Inl e \<Rightarrow> (d', extracted_texts, Some e)
       | Inr (title, text) \<Rightarrow>
           urls_loop s original_window urls
             (close_to original_window
                (emit (Print (ExtractedText text)) (emit (Print (PaperTitle title)) d')))
             (extracted_texts\<lparr>pe_title := pe_title extracted_texts @ [title],
                               pe_text := pe_text extracted_texts @ [text]\<rparr>)))"

definition process_black_links :: "site \<Rightarrow> driver \<Rightarrow> driver \<times> page_entry" where
  "process_black_links s d =
     (let extracted_texts = \<lparr>pe_title = [], pe_text = []\<rparr>;
          link_elements = black_links (cur_view s d) in
      if link_elements = [] then (emit (Print ErrorProcessingBlackLinks) d, extracted_texts)
      else
        (case hrefs_loop link_elements [] of
           Inl e \<Rightarrow> (emit (Print ErrorProcessingBlackLinks) d, extracted_texts)
         | Inr urls \<Rightarrow>
             (case urls_loop s (current_window d) urls d extracted_texts of
                (d', extracted_texts', None) \<Rightarrow> (d', extracted_texts')
              | (d', extracted_texts', Some e) \<Rightarrow>
                  (emit (Print ErrorProcessingBlackLinks) d', extracted_texts'))))"

subsection \<open>process_method_image\<close>

text \<open>The \<open>while\<close> loop of lines 93 to 113.\<close>

function pages_loop ::
  "site \<Rightarrow> nat \<Rightarrow> driver \<Rightarrow> page_entry list \<Rightarrow> driver \<times> page_entry list" where
  "pages_loop s page_counter d extracted_titles_texts =
     (if page_counter < 10 then
        (case process_black_links s d of (d1, extracted_contents) \<Rightarrow>
           if next_clickable (cur_view s d1) then
             (if next_disabled (cur_view s (click s d1))
              then (click s d1, extracted_titles_texts @ [extracted_contents])
              else pages_loop s (page_counter + 1) (click s d1)
                     (extracted_titles_texts @ [extracted_contents]))
           else (emit (Print NoAdditionalPage) d1, extracted_titles_texts @ [extracted_contents]))
      else (d, extracted_titles_texts))"
  by pat_completeness auto
termination
  by (relation "measure (\<lambda>(s, page_counter, d, acc). 10 - page_counter)") auto

declare pages_loop.simps [simp del]

definition process_method_image :: "site \<Rightarrow> driver \<Rightarrow> pystr \<Rightarrow> driver \<times> page_entry list" where
  "process_method_image s d method_image_url = pages_loop s 0 (get method_image_url d) []"

subsection \<open>process_topic_link\<close>

text \<open>Lines 135 to 143: a div whose link cannot be read is logged and left out.\<close>

fun method_divs_loop :: "pystr option option list \<Rightarrow> driver \<Rightarrow> pystr list \<Rightarrow> driver \<times> pystr list" where
  "method_divs_loop [] d method_links = (d, method_links)"
| "method_divs_loop (Some (Some href) # divs) d method_links =
     method_divs_loop divs d (method_links @ [resolve href])"
| "method_divs_loop (_ # divs) d method_links =
     method_divs_loop divs (emit (Print ErrorExtractingMethodImageLink) d) method_links"

text \<open>Lines 145 to 148. A dictionary is a list of pairs with distinct keys, in insertion order.\<close>

type_synonym group_results = "(pystr \<times> page_entry list) list"

fun method_links_loop ::
  "site \<Rightarrow> pystr list \<Rightarrow> driver \<Rightarrow> group_results \<Rightarrow> driver \<times> group_results" where
  "method_links_loop s [] d results = (d, results)"
| "method_links_loop s (link # links) d results =
     (case process_method_image s (emit (Print (ProcessingMethodImageLink link)) d) link of
        (d', titles_texts) \<Rightarrow>
          method_links_loop s links d' (AList.update link titles_texts results))"

definition process_topic_link :: "site \<Rightarrow> driver \<Rightarrow> pystr \<Rightarrow> driver \<times> group_results" where
  "process_topic_link s d topic_url =
     (let d1 = get topic_url d in
      if method_image (cur_view s d1) = [] then (emit (Print ErrorWaitingMethodImage) d1, [])
      else
        (case method_divs_loop (take 20 (method_image (cur_view s d1))) d1 [] of
           (d2, method_links) \<Rightarrow> method_links_loop s method_links d2 []))"

subsection \<open>main\<close>



section \<open>The result document and its JSON form\<close>

text \<open>
  The Python values a result can be made of, and the values of a JSON text. \<open>json.dump\<close>
  writes a list and a tuple alike as an array, and \<open>json.load\<close> reads an array as a
  list and builds a dictionary key by key. The characters of the written text are those
  of the \<open>json\<close> library and are not part of the program.
\<close>

datatype pyval =
  PNone | PInt int | PStr pystr | PList "pyval list" | PTuple "pyval list"
| PDict "(pystr \<times> pyval) list"

datatype json =
  JNull | JNumber int | JString pystr | JArray "json list" | JObject "(pystr \<times> json) list"

fun json_dump :: "pyval \<Rightarrow> json" where
  "json_dump PNone = JNull"
| "json_dump (PInt i) = JNumber i"
| "json_dump (PStr s) = JString s"
| "json_dump (PList xs) = JArray (map json_dump xs)"
| "json_dump (PTuple xs) = JArray (map json_dump xs)"
| "json_dump (PDict kvs) = JObject (map (map_prod id json_dump) kvs)"

text \<open>A dictionary built from pairs in order: a repeated key keeps its place and takes the later value.\<close>

definition dict_of :: "(pystr \<times> 'v) list \<Rightarrow> (pystr \<times> 'v) list" where
  "dict_of kvs = foldl (\<lambda>d (k, v). AList.update k v d) [] kvs"

fun json_load :: "json \<Rightarrow> pyval" where
  "json_load JNull = PNone"
| "json_load (JNumber i) = PInt i"
| "json_load (JString s) = PStr s"
| "json_load (JArray xs) = PList (map json_load xs)"
| "json_load (JObject kvs) = PDict (dict_of (map (map_prod id json_load) kvs))"














section \<open>Notions the properties are stated with\<close>

text \<open>The URLs the session was sent to with \<open>driver.get\<close>, in order.\<close>

fun gets :: "event list \<Rightarrow> pystr list" where
  "gets [] = []"
| "gets (Get url # es) = url # gets es"
| "gets (_ # es) = gets es"

text \<open>The links of the method groups whose anchor and \<open>href\<close> are there, resolved, in order.\<close>

fun group_links :: "pystr option option list \<Rightarrow> pystr list" where
  "group_links [] = []"
| "group_links (Some (Some href) # divs) = resolve href # group_links divs"
| "group_links (_ # divs) = group_links divs"

text \<open>A paper page renders: it shows the text of its abstract and of its title.\<close>

definition renders :: "site \<Rightarrow> pystr \<Rightarrow> bool" where
  "renders s url \<longleftrightarrow>
     (case (paper_abstract (view_at (s url) 0), paper_title (view_at (s url) 0)) of
        (AbstractText a, TitleText t) \<Rightarrow> True
      | _ \<Rightarrow> False)"

text \<open>Every paper link of a listing page has its \<open>href\<close> and leads to a page that renders.\<close>

definition papers_render :: "site \<Rightarrow> view \<Rightarrow> bool" where
  "papers_render s v \<longleftrightarrow>
     list_all (\<lambda>e. case e of None \<Rightarrow> False | Some href \<Rightarrow> renders s (resolve href)) (black_links v)"




section \<open>Example pages\<close>

definition listing :: "pystr option list \<Rightarrow> bool \<Rightarrow> bool \<Rightarrow> view" where
  "listing links clickable disabled =
     blank\<lparr>black_links := links, next_clickable := clickable, next_disabled := disabled\<rparr>"

definition paper :: "pystr \<Rightarrow> pystr \<Rightarrow> view" where
  "paper title abstract = blank\<lparr>paper_abstract := AbstractText abstract, paper_title := TitleText title\<rparr>"

text \<open>
  A small site. \<open>/a\<close> is a paper page that never shows its abstract; \<open>/b\<close> and \<open>/c\<close>
  render. \<open>L1\<close> is a listing of one page with two papers and no next control. \<open>L2\<close>
  has two pages, \<open>L11\<close> eleven; their last page shows the next control disabled, as
  the paginated table of the catalog site does. \<open>E\<close> is a listing page without links.
  \<open>T\<close> is a topic page with four method groups.
\<close>

definition example_site :: site where
  "example_site url =
     (if url = BASE_URL @ py ''/a'' then [blank]
      else if url = BASE_URL @ py ''/b'' then [paper (py '' B '') (py ''on b'')]
      else if url = BASE_URL @ py ''/c'' then [paper (py ''C'') (py ''on c'')]
      else if url = py ''http://L1'' then [listing [Some (py ''/a''), Some (py ''/b'')] False False]
      else if url = py ''http://L2'' then
        [listing [Some (py ''/b'')] True False, listing [Some (py ''/c'')] True True]
      else if url = py ''http://L11'' then
        replicate 10 (listing [Some (py ''/b'')] True False) @ [listing [Some (py ''/c'')] True True]
      else if url = py ''http://E'' then [listing [] False False]
      else if url = py ''http://T'' then
        [blank\<lparr>method_image := [Some (Some (py ''http://L2'')), None, Some None, Some (Some (py ''http://E''))]\<rparr>]
      else [])"






section \<open>Properties of the catalog fetch\<close>

subsection \<open>Searching and trimming\<close>

lemma py_find_Some:
  "py_find sep s = Some i \<Longrightarrow> s = take i s @ sep @ drop (i + length sep) s"
proof (induction s arbitrary: i)
  case Nil
  then show ?case by (simp split: if_splits)
next
  case (Cons c cs)
  show ?case
  proof (cases "prefix sep (c # cs)")
    case True
    with Cons.prems have "i = 0" by simp
    with True show ?thesis by (auto simp: prefix_def)
  next
    case False
    with Cons.prems obtain j where j: "py_find sep cs = Some j" "i = Suc j" by auto
    from Cons.IH[OF j(1)] j(2) show ?thesis by simp
  qed
qed

lemma py_find_least:
  "py_find sep s = Some i \<Longrightarrow> s = a @ sep @ b \<Longrightarrow> i \<le> length a"
proof (induction s arbitrary: i a)
  case Nil
  then show ?case by (simp split: if_splits)
next
  case (Cons c cs)
  show ?case
  proof (cases "prefix sep (c # cs)")
    case True
    with Cons.prems(1) have "i = 0" by simp
    then show ?thesis by simp
  next
    case False
    with Cons.prems(1) obtain j where j: "py_find sep cs = Some j" "i = Suc j" by auto
    from False Cons.prems(2) have "a \<noteq> []" by (auto simp: prefix_def)
    then obtain a' where a': "a = c # a'" using Cons.prems(2) by (cases a) auto
    with Cons.prems(2) have "cs = a' @ sep @ b" by simp
    from Cons.IH[OF j(1) this] j(2) a' show ?thesis by simp
  qed
qed

lemma py_find_None:
  "py_find sep s = None \<Longrightarrow> s \<noteq> a @ sep @ b"
proof (induction s arbitrary: a)
  case Nil
  then show ?case by (auto split: if_splits)
next
  case (Cons c cs)
  from Cons.prems have np: "\<not> prefix sep (c # cs)" and n: "py_find sep cs = None"
    by (auto split: if_splits)
  show ?case
  proof
    assume eq: "c # cs = a @ sep @ b"
    from np eq have "a \<noteq> []" by (auto simp: prefix_def)
    then obtain a' where "a = c # a'" using eq by (cases a) auto
    with eq have "cs = a' @ sep @ b" by simp
    with Cons.IH[OF n] show False by blast
  qed
qed

lemma split_cell_sep:
  assumes "c = a0 @ SEP @ b0"
  shows "\<exists>a b. split_cell c = Inr (a, Some b) \<and> c = a @ SEP @ b \<and>
           (\<forall>a' b'. c = a' @ SEP @ b' \<longrightarrow> length a \<le> length a')"
proof -
  from assms py_find_None[of SEP c a0 b0] obtain i where i: "py_find SEP c = Some i"
    by (cases "py_find SEP c") auto
  let ?a = "take i c" and ?b = "drop (i + length SEP) c"
  have sc: "split_cell c = Inr (?a, Some ?b)"
    using i by (simp add: split_cell_def contains_def split1_def)
  have eq: "c = ?a @ SEP @ ?b" by (rule py_find_Some[OF i])
  have "length c = length ?a + length SEP + length ?b"
    using arg_cong[OF eq, of length] by simp
  then have "i \<le> length c" by (cases "i \<le> length c") (simp_all add: SEP_def)
  then have len: "length ?a = i" by simp
  have "\<forall>a' b'. c = a' @ SEP @ b' \<longrightarrow> length ?a \<le> length a'"
    using py_find_least[OF i] len by simp
  with sc eq show ?thesis by blast
qed

lemma split_cell_nosep:
  assumes "\<nexists>a b. c = a @ SEP @ b"
  shows "split_cell c = Inr (c, None)"
proof -
  have "py_find SEP c = None"
  proof (cases "py_find SEP c")
    case (Some i)
    from py_find_Some[OF this] assms show ?thesis by blast
  qed simp
  then show ?thesis by (simp add: split_cell_def contains_def)
qed


lemma split_cell_total: "\<exists>m p. split_cell c = Inr (m, p)"
proof (cases "\<exists>a b. c = a @ SEP @ b")
  case True
  then obtain a0 b0 where "c = a0 @ SEP @ b0" by blast
  from split_cell_sep[OF this] show ?thesis by blast
next
  case False
  from split_cell_nosep[OF this] show ?thesis by blast
qed



lemma method_rows_out:
  "\<exists>out. method_rows tn rows ml = Inr (ml @ out) \<and>
     list_all2 (\<lambda>r m. 3 \<le> length r \<and> mr_year m = strip (r ! 1) \<and> mr_num_papers m = strip (r ! 2))
       (filter (\<lambda>r. 3 \<le> length r) rows) out"
proof (induction rows arbitrary: ml)
  case Nil
  then show ?case by simp
next
  case (Cons row rows)
  show ?case
  proof (cases "3 \<le> length row")
    case False
    with Cons.IH[of ml] show ?thesis by simp
  next
    case True
    obtain m p where sc: "split_cell (strip (row ! 0)) = Inr (m, p)"
      using split_cell_total by blast
    let ?r = "\<lparr>mr_topic_name = tn, mr_method = strip m, mr_year = strip (row ! 1),
               mr_num_papers = strip (row ! 2), mr_paper_name = p\<rparr>"
    from Cons.IH[of "ml @ [?r]"] obtain out where
      out: "method_rows tn rows (ml @ [?r]) = Inr ((ml @ [?r]) @ out)"
        "list_all2 (\<lambda>r m. 3 \<le> length r \<and> mr_year m = strip (r ! 1) \<and> mr_num_papers m = strip (r ! 2))
          (filter (\<lambda>r. 3 \<le> length r) rows) out"
      by blast
    obtain x0 x1 x2 xs where row: "row = x0 # x1 # x2 # xs"
      using True by (cases row rule: unpack2.cases) auto
    have "method_rows tn (row # rows) ml = Inr (ml @ ?r # out)"
      using sc out(1) unfolding row by (simp add: Let_def)
    moreover have "list_all2 (\<lambda>r m. 3 \<le> length r \<and> mr_year m = strip (r ! 1) \<and> mr_num_papers m = strip (r ! 2))
          (filter (\<lambda>r. 3 \<le> length r) (row # rows)) (?r # out)"
      using True out(2) by simp
    ultimately show ?thesis by blast
  qed
qed

text \<open>
  Claim C10. A table row with fewer than three cells appends nothing to the methods
  list. The rows appended by \<open>get_topic_method_info\<close>'s loop are, in order, one for
  each row that has at least three cells; its year is the trimmed second cell and its
  number of papers the trimmed third cell. The function has no output statement on the
  path of a short row.
\<close>

theorem short_rows_skipped:
  "(length row < 3 \<longrightarrow> method_rows tn (row # rows) ml = method_rows tn rows ml) \<and>
   (\<exists>out. method_rows tn rows ml = Inr (ml @ out) \<and>
      list_all2 (\<lambda>r m. 3 \<le> length r \<and> mr_year m = strip (r ! 1) \<and> mr_num_papers m = strip (r ! 2))
        (filter (\<lambda>r. 3 \<le> length r) rows) out)"
  using method_rows_out[of tn rows ml] by simp

text \<open>A table with a short row and a full row.\<close>

theorem short_rows_skipped_witness:
  "length [[65], [66::nat]] < 3 \<and>
   method_rows [84] [[[65], [66]], [[77], [50, 48], [55]]] [] =
     Inr [\<lparr>mr_topic_name = [84], mr_method = [77], mr_year = [50, 48], mr_num_papers = [55],
           mr_paper_name = None\<rparr>]"
  using short_rows_skipped[of "[[65], [66]]" "[84]" "[[[77], [50, 48], [55]]]" "[]"]
  by (simp add: split_cell_def contains_def SEP_def strip_def isspace_def)




subsection \<open>A card that cannot be parsed\<close>











section \<open>Properties of the browser session\<close>

subsection \<open>The session after each operation\<close>

lemma gets_append: "gets (xs @ ys) = gets xs @ gets ys"
  by (induction xs rule: gets.induct) simp_all

lemma emit_fields [simp]:
  "current_window (emit e d) = current_window d"
  "background (emit e d) = background d"
  "events (emit e d) = events d @ [e]"
  by (simp_all add: emit_def)

lemma cur_view_emit [simp]: "cur_view s (emit e d) = cur_view s d"
  by (simp add: cur_view_def)

lemma window_open_fields [simp]:
  "current_window (window_open url d) = \<lparr>tab_url = url, tab_page = 0\<rparr>"
  "background (window_open url d) = current_window d # background d"
  "events (window_open url d) = events d @ [WindowOpen url]"
  by (simp_all add: window_open_def)

lemma close_to_fields [simp]:
  "current_window (close_to w d) = w"
  "background (close_to w d) = tl (background d)"
  "events (close_to w d) = events d @ [Close]"
  by (simp_all add: close_to_def)

lemma get_fields [simp]:
  "current_window (get url d) = \<lparr>tab_url = url, tab_page = 0\<rparr>"
  "background (get url d) = background d"
  "events (get url d) = events d @ [Get url]"
  by (simp_all add: get_def)

lemma click_fields [simp]:
  "background (click s d) = background d"
  "events (click s d) = events d @ [Click]"
  "current_window (click s d) =
     (if \<not> next_disabled (cur_view s d) \<and>
         Suc (tab_page (current_window d)) < length (s (tab_url (current_window d)))
      then (current_window d)\<lparr>tab_page := Suc (tab_page (current_window d))\<rparr>
      else current_window d)"
  by (simp_all add: click_def Let_def)

text \<open>What \<open>extract_text_from_page\<close> does to the session.\<close>

lemma extract_fields:
  "extract_text_from_page s d = (d', r) \<Longrightarrow>
     current_window d' = current_window d \<and> background d' = background d \<and>
     (\<exists>es. events d' = events d @ es \<and> gets es = [] \<and> count_list es Click = 0)"
  by (auto simp: extract_text_from_page_def split: abstract_dom.splits title_dom.splits)

lemma urls_loop_balanced:
  "urls_loop s w urls d ex = (d', ex', r) \<Longrightarrow>
     length (pe_title ex) = length (pe_text ex) \<Longrightarrow> length (pe_title ex') = length (pe_text ex')"
proof (induction urls arbitrary: d ex)
  case Nil
  then show ?case by simp
next
  case (Cons url urls)
  obtain d1 r1 where e: "extract_text_from_page s (window_open url d) = (d1, r1)"
    by (cases "extract_text_from_page s (window_open url d)")
  show ?case
  proof (cases r1)
    case EmptyString
    with Cons.prems e show ?thesis by simp
  next
    case (Tuple ti ab)
    with Cons.prems(1) e have
      "urls_loop s w urls
         (close_to w (emit (Print (ExtractedText ab)) (emit (Print (PaperTitle ti)) d1)))
         (ex\<lparr>pe_title := pe_title ex @ [ti], pe_text := pe_text ex @ [ab]\<rparr>) = (d', ex', r)"
      by simp
    from Cons.IH[OF this] Cons.prems(2) show ?thesis by simp
  qed
qed

lemma urls_loop_events:
  "urls_loop s w urls d ex = (d', ex', r) \<Longrightarrow>
     \<exists>es. events d' = events d @ es \<and> gets es = [] \<and> count_list es Click = 0"
proof (induction urls arbitrary: d ex)
  case Nil
  then show ?case by simp
next
  case (Cons url urls)
  obtain d1 r1 where e: "extract_text_from_page s (window_open url d) = (d1, r1)"
    by (cases "extract_text_from_page s (window_open url d)")
  from extract_fields[OF e] obtain es1 where
    es1: "events d1 = events d @ [WindowOpen url] @ es1" "gets es1 = []" "count_list es1 Click = 0"
    by auto
  show ?case
  proof (cases r1)
    case EmptyString
    with Cons.prems e have "d' = d1" by simp
    with es1 show ?thesis by (simp add: gets_append)
  next
    case (Tuple ti ab)
    let ?d2 = "close_to w (emit (Print (ExtractedText ab)) (emit (Print (PaperTitle ti)) d1))"
    from Tuple Cons.prems(1) e have
      "urls_loop s w urls ?d2
         (ex\<lparr>pe_title := pe_title ex @ [ti], pe_text := pe_text ex @ [ab]\<rparr>) = (d', ex', r)"
      by simp
    from Cons.IH[OF this] obtain es2 where
      es2: "events d' = events ?d2 @ es2" "gets es2 = []" "count_list es2 Click = 0" by blast
    have "events d' = events d @ ([WindowOpen url] @ es1 @
            [Print (PaperTitle ti), Print (ExtractedText ab), Close] @ es2)"
      using es2(1) es1(1) by simp
    moreover have "gets ([WindowOpen url] @ es1 @
            [Print (PaperTitle ti), Print (ExtractedText ab), Close] @ es2) = []"
      using es1(2) es2(2) by (simp add: gets_append)
    moreover have "count_list ([WindowOpen url] @ es1 @
            [Print (PaperTitle ti), Print (ExtractedText ab), Close] @ es2) Click = 0"
      using es1(3) es2(3) by simp
    ultimately show ?thesis by blast
  qed
qed

lemma process_black_links_balanced:
  "length (pe_title (snd (process_black_links s d))) = length (pe_text (snd (process_black_links s d)))"
proof -
  have *: "\<And>urls d' ex' r.
     urls_loop s (current_window d) urls d \<lparr>pe_title = [], pe_text = []\<rparr> = (d', ex', r) \<Longrightarrow>
     length (pe_title ex') = length (pe_text ex')"
    by (erule urls_loop_balanced) simp
  show ?thesis
    by (auto simp: process_black_links_def Let_def split: sum.splits prod.splits option.splits dest: *)
qed

lemma process_black_links_events:
  "\<exists>es. events (fst (process_black_links s d)) = events d @ es \<and> gets es = [] \<and> count_list es Click = 0"
proof -
  have *: "\<And>urls d' ex' r. urls_loop s (current_window d) urls d \<lparr>pe_title = [], pe_text = []\<rparr> = (d', ex', r)
     \<Longrightarrow> \<exists>es. events (emit (Print ErrorProcessingBlackLinks) d') = events d @ es \<and> gets es = [] \<and> count_list es Click = 0"
  proof -
    fix urls d' ex' r
    assume "urls_loop s (current_window d) urls d \<lparr>pe_title = [], pe_text = []\<rparr> = (d', ex', r)"
    from urls_loop_events[OF this] obtain es where
      "events d' = events d @ es" "gets es = []" "count_list es Click = 0" by blast
    then have "events (emit (Print ErrorProcessingBlackLinks) d') = events d @ (es @ [Print ErrorProcessingBlackLinks])"
      "gets (es @ [Print ErrorProcessingBlackLinks]) = []"
      "count_list (es @ [Print ErrorProcessingBlackLinks]) Click = 0"
      by (simp_all add: gets_append)
    then show "\<exists>es. events (emit (Print ErrorProcessingBlackLinks) d') = events d @ es \<and> gets es = [] \<and> count_list es Click = 0"
      by blast
  qed
  have **: "\<exists>es. events (emit (Print ErrorProcessingBlackLinks) d) = events d @ es \<and> gets es = [] \<and> count_list es Click = 0"
    by (rule exI[of _ "[Print ErrorProcessingBlackLinks]"]) simp
  show ?thesis
    using **
    by (auto simp: process_black_links_def Let_def simp del: emit_fields
          split: sum.splits prod.splits option.splits dest: * urls_loop_events)
qed


lemma pages_loop_unfold:
  "process_black_links s d = (d1, x) \<Longrightarrow>
   pages_loop s c d acc =
     (if c < 10 then
        if next_clickable (cur_view s d1) then
          (if next_disabled (cur_view s (click s d1)) then (click s d1, acc @ [x])
           else pages_loop s (c + 1) (click s d1) (acc @ [x]))
        else (emit (Print NoAdditionalPage) d1, acc @ [x])
      else (d, acc))"
  by (subst pages_loop.simps) simp

lemma pages_loop_general:
  "\<exists>rest. snd (pages_loop s c d acc) = acc @ rest \<and> length rest \<le> 10 - c \<and>
     (c < 10 \<longrightarrow> rest \<noteq> [] \<and> hd rest = snd (process_black_links s d)) \<and>
     (\<forall>e\<in>set rest. length (pe_title e) = length (pe_text e)) \<and>
     gets (events (fst (pages_loop s c d acc))) = gets (events d) \<and>
     count_list (events (fst (pages_loop s c d acc))) Click \<le> count_list (events d) Click + (10 - c)"
proof (induction "10 - c" arbitrary: c d acc)
  case 0
  then have "\<not> c < 10" by simp
  then have "pages_loop s c d acc = (d, acc)" by (subst pages_loop.simps) simp
  with \<open>\<not> c < 10\<close> show ?case by simp
next
  case (Suc n)
  then have c: "c < 10" and n: "n = 10 - (c + 1)" by simp_all
  obtain d1 x where pbl: "process_black_links s d = (d1, x)"
    by (cases "process_black_links s d")
  have bal: "length (pe_title x) = length (pe_text x)"
    using process_black_links_balanced[of s d] pbl by simp
  obtain es where es: "events d1 = events d @ es" "gets es = []" "count_list es Click = 0"
    using process_black_links_events[of s d] pbl by auto
  note unf = pages_loop_unfold[OF pbl, of c acc]
  show ?case
  proof (cases "next_clickable (cur_view s d1)")
    case False
    with unf c have r: "pages_loop s c d acc = (emit (Print NoAdditionalPage) d1, acc @ [x])"
      by simp
    show ?thesis
      by (rule exI[of _ "[x]"]) (use r c bal es pbl in \<open>auto simp add: gets_append\<close>)
  next
    case True
    show ?thesis
    proof (cases "next_disabled (cur_view s (click s d1))")
      case True
      with unf c \<open>next_clickable (cur_view s d1)\<close>
      have r: "pages_loop s c d acc = (click s d1, acc @ [x])" by simp
      show ?thesis
        by (rule exI[of _ "[x]"]) (use r c bal es pbl in \<open>auto simp add: gets_append\<close>)
    next
      case False
      with unf c \<open>next_clickable (cur_view s d1)\<close>
      have r: "pages_loop s c d acc = pages_loop s (c + 1) (click s d1) (acc @ [x])" by simp
      from Suc.hyps(1)[OF n, of "click s d1" "acc @ [x]"] obtain rest where
        rest: "snd (pages_loop s (c + 1) (click s d1) (acc @ [x])) = (acc @ [x]) @ rest"
          "length rest \<le> 10 - (c + 1)"
          "\<forall>e\<in>set rest. length (pe_title e) = length (pe_text e)"
          "gets (events (fst (pages_loop s (c + 1) (click s d1) (acc @ [x])))) = gets (events (click s d1))"
          "count_list (events (fst (pages_loop s (c + 1) (click s d1) (acc @ [x])))) Click
             \<le> count_list (events (click s d1)) Click + (10 - (c + 1))"
        by blast
      show ?thesis
        by (rule exI[of _ "x # rest"]) (use r c bal es pbl rest in \<open>auto simp add: gets_append\<close>)
    qed
  qed
qed

subsection \<open>Listings whose papers render\<close>

lemma cur_view_window_open [simp]: "cur_view s (window_open url d) = view_at (s url) 0"
  by (simp add: cur_view_def)

lemma extract_renders:
  "renders s url \<Longrightarrow> \<exists>ti ab. extract_text_from_page s (window_open url d) = (window_open url d, Tuple ti ab)"
  by (auto simp: renders_def extract_text_from_page_def split: abstract_dom.splits title_dom.splits)

lemma urls_loop_renders:
  "list_all (renders s) urls \<Longrightarrow>
   \<exists>d' ex'. urls_loop s w urls d ex = (d', ex', None) \<and>
     current_window d' = (if urls = [] then current_window d else w) \<and> background d' = background d"
proof (induction urls arbitrary: d ex)
  case Nil
  then show ?case by simp
next
  case (Cons url urls)
  then have r: "renders s url" and rs: "list_all (renders s) urls" by simp_all
  from extract_renders[OF r, of d] obtain ti ab where
    e: "extract_text_from_page s (window_open url d) = (window_open url d, Tuple ti ab)" by blast
  let ?d2 = "close_to w (emit (Print (ExtractedText ab)) (emit (Print (PaperTitle ti)) (window_open url d)))"
  let ?ex2 = "ex\<lparr>pe_title := pe_title ex @ [ti], pe_text := pe_text ex @ [ab]\<rparr>"
  from Cons.IH[OF rs, of ?d2 ?ex2] obtain d' ex' where
    ih: "urls_loop s w urls ?d2 ?ex2 = (d', ex', None)"
      "current_window d' = (if urls = [] then current_window ?d2 else w)"
      "background d' = background ?d2" by blast
  have "urls_loop s w (url # urls) d ex = (d', ex', None)" using e ih(1) by simp
  moreover have "current_window d' = w" using ih(2) by simp
  moreover have "background d' = background d" using ih(3) by simp
  ultimately show ?case by simp
qed

lemma hrefs_loop_all:
  "list_all (\<lambda>e. e \<noteq> None) elems \<Longrightarrow> hrefs_loop elems urls = Inr (urls @ map (\<lambda>e. resolve (the e)) elems)"
  by (induction elems urls rule: hrefs_loop.induct) simp_all

lemma process_black_links_renders:
  assumes "papers_render s (cur_view s d)"
  shows "current_window (fst (process_black_links s d)) = current_window d \<and>
         background (fst (process_black_links s d)) = background d"
proof (cases "black_links (cur_view s d) = []")
  case True
  then show ?thesis by (simp add: process_black_links_def)
next
  case False
  let ?links = "black_links (cur_view s d)"
  let ?urls = "map (\<lambda>e. resolve (the e)) ?links"
  from assms have some: "list_all (\<lambda>e. e \<noteq> None) ?links"
    by (auto simp: papers_render_def list_all_iff split: option.splits)
  from assms have rend: "list_all (renders s) ?urls"
    by (auto simp: papers_render_def list_all_iff split: option.splits)
  have h: "hrefs_loop ?links [] = Inr ?urls" using hrefs_loop_all[OF some, of "[]"] by simp
  from urls_loop_renders[OF rend, of "current_window d" d "\<lparr>pe_title = [], pe_text = []\<rparr>"]
  obtain d' ex' where
    u: "urls_loop s (current_window d) ?urls d \<lparr>pe_title = [], pe_text = []\<rparr> = (d', ex', None)"
      "current_window d' = current_window d" "background d' = background d"
    by (auto split: if_splits)
  show ?thesis using False h u by (simp add: process_black_links_def Let_def)
qed

lemma pages_loop_run:
  assumes "current_window d = \<lparr>tab_url = u, tab_page = c\<rparr>" and "c < 10"
    and "\<forall>i. c \<le> i \<and> i < 10 \<longrightarrow> i < length (s u) \<and> papers_render s (s u ! i) \<and> \<not> next_disabled (s u ! i)"
    and "\<forall>i. c \<le> i \<and> i < 9 \<longrightarrow> next_clickable (s u ! i)"
  shows "length (snd (pages_loop s c d acc)) = length acc + (10 - c) \<and>
         (next_clickable (s u ! 9) \<and> 10 < length (s u) \<longrightarrow>
            current_window (fst (pages_loop s c d acc)) = \<lparr>tab_url = u, tab_page = 10\<rparr> \<and>
            count_list (events (fst (pages_loop s c d acc))) Click = count_list (events d) Click + (10 - c))"
  using assms
proof (induction "10 - c" arbitrary: c d acc)
  case 0
  then show ?case by simp
next
  case (Suc n)
  note cw = Suc.prems(1) and c = Suc.prems(2) and good = Suc.prems(3) and nxt = Suc.prems(4)
  from good c have here: "c < length (s u)" "papers_render s (s u ! c)" "\<not> next_disabled (s u ! c)"
    by auto
  have view: "cur_view s d = s u ! c" using cw here(1) by (simp add: cur_view_def view_at_def)
  obtain d1 x where pbl: "process_black_links s d = (d1, x)"
    by (cases "process_black_links s d")
  from process_black_links_renders[of s d] view here(2) pbl
  have cw1: "current_window d1 = \<lparr>tab_url = u, tab_page = c\<rparr>" using cw by simp
  then have view1: "cur_view s d1 = s u ! c" using here(1) by (simp add: cur_view_def view_at_def)
  obtain es where es: "events d1 = events d @ es" "count_list es Click = 0"
    using process_black_links_events[of s d] pbl by auto
  note unf = pages_loop_unfold[OF pbl, of c acc]
  show ?case
  proof (cases "c < 9")
    case True
    with nxt have clk: "next_clickable (s u ! c)" by simp
    from True good have nextp: "Suc c < length (s u)" "\<not> next_disabled (s u ! Suc c)" by auto
    have cw2: "current_window (click s d1) = \<lparr>tab_url = u, tab_page = Suc c\<rparr>"
      using cw1 view1 here(3) nextp(1) by simp
    then have view2: "cur_view s (click s d1) = s u ! Suc c"
      using nextp(1) by (simp add: cur_view_def view_at_def)
    have r: "pages_loop s c d acc = pages_loop s (c + 1) (click s d1) (acc @ [x])"
      using unf c clk view1 view2 nextp(2) by simp
    have n: "n = 10 - (c + 1)" using Suc.hyps(2) by simp
    have ih: "length (snd (pages_loop s (c + 1) (click s d1) (acc @ [x]))) = length (acc @ [x]) + (10 - (c + 1)) \<and>
         (next_clickable (s u ! 9) \<and> 10 < length (s u) \<longrightarrow>
            current_window (fst (pages_loop s (c + 1) (click s d1) (acc @ [x]))) = \<lparr>tab_url = u, tab_page = 10\<rparr> \<and>
            count_list (events (fst (pages_loop s (c + 1) (click s d1) (acc @ [x])))) Click =
              count_list (events (click s d1)) Click + (10 - (c + 1)))"
      by (rule Suc.hyps(1)[OF n]) (use cw2 True good nxt in auto)
    show ?thesis using ih r True es by auto
  next
    case False
    with c have c9: "c = 9" by simp
    show ?thesis
    proof (cases "next_clickable (s u ! 9)")
      case False
      then show ?thesis using unf c9 view1 by simp
    next
      case True
      have stop: "pages_loop s 10 (click s d1) (acc @ [x]) = (click s d1, acc @ [x])"
        by (subst pages_loop.simps) simp
      have r: "pages_loop s c d acc = (click s d1, acc @ [x])"
        using unf c9 True view1 stop by simp
      have "10 < length (s u) \<Longrightarrow> current_window (click s d1) = \<lparr>tab_url = u, tab_page = 10\<rparr>"
        using cw1 view1 here(3) c9 by simp
      then show ?thesis using r c9 es by simp
    qed
  qed
qed

text \<open>
  A listing of at most ten pages without any disabled marker, whose last page offers no
  clickable next control: every page is harvested and the loop ends on the missing control.
\<close>

lemma pages_loop_to_end:
  assumes "current_window d = \<lparr>tab_url = u, tab_page = c\<rparr>" and "c < length (s u)" and "length (s u) \<le> 10"
    and "\<forall>i. c \<le> i \<and> i < length (s u) \<longrightarrow> papers_render s (s u ! i) \<and> \<not> next_disabled (s u ! i)"
    and "\<forall>i. c \<le> i \<and> Suc i < length (s u) \<longrightarrow> next_clickable (s u ! i)"
    and "\<not> next_clickable (s u ! (length (s u) - 1))"
  shows "length (snd (pages_loop s c d acc)) = length acc + (length (s u) - c) \<and>
         last (events (fst (pages_loop s c d acc))) = Print NoAdditionalPage \<and>
         count_list (events (fst (pages_loop s c d acc))) Click
           = count_list (events d) Click + (length (s u) - 1 - c)"
  using assms
proof (induction "length (s u) - c" arbitrary: c d acc)
  case 0
  then show ?case by simp
next
  case (Suc n)
  note cw = Suc.prems(1) and c = Suc.prems(2) and len = Suc.prems(3) and good = Suc.prems(4)
    and nxt = Suc.prems(5) and lastp = Suc.prems(6)
  from good c have here: "papers_render s (s u ! c)" "\<not> next_disabled (s u ! c)" by auto
  from c len have c10: "c < 10" by simp
  have view: "cur_view s d = s u ! c" using cw c by (simp add: cur_view_def view_at_def)
  obtain d1 x where pbl: "process_black_links s d = (d1, x)"
    by (cases "process_black_links s d")
  from process_black_links_renders[of s d] view here(1) pbl
  have cw1: "current_window d1 = \<lparr>tab_url = u, tab_page = c\<rparr>" using cw by simp
  then have view1: "cur_view s d1 = s u ! c" using c by (simp add: cur_view_def view_at_def)
  obtain es where es: "events d1 = events d @ es" "count_list es Click = 0"
    using process_black_links_events[of s d] pbl by auto
  note unf = pages_loop_unfold[OF pbl, of c acc]
  show ?case
  proof (cases "Suc c < length (s u)")
    case True
    with nxt have clk: "next_clickable (s u ! c)" by simp
    from True good have nextp: "\<not> next_disabled (s u ! Suc c)" by auto
    have cw2: "current_window (click s d1) = \<lparr>tab_url = u, tab_page = Suc c\<rparr>"
      using cw1 view1 here(2) True by simp
    then have view2: "cur_view s (click s d1) = s u ! Suc c"
      using True by (simp add: cur_view_def view_at_def)
    have r: "pages_loop s c d acc = pages_loop s (c + 1) (click s d1) (acc @ [x])"
      using unf c10 clk view1 view2 nextp by simp
    have n: "n = length (s u) - (c + 1)" using Suc.hyps(2) by simp
    have ih: "length (snd (pages_loop s (c + 1) (click s d1) (acc @ [x]))) = length (acc @ [x]) + (length (s u) - (c + 1)) \<and>
         last (events (fst (pages_loop s (c + 1) (click s d1) (acc @ [x])))) = Print NoAdditionalPage \<and>
         count_list (events (fst (pages_loop s (c + 1) (click s d1) (acc @ [x])))) Click
           = count_list (events (click s d1)) Click + (length (s u) - 1 - (c + 1))"
      by (rule Suc.hyps(1)[OF n]) (use cw2 True len good nxt lastp in auto)
    show ?thesis using ih r True es by auto
  next
    case False
    with c have cl: "c = length (s u) - 1" by simp
    with lastp have "\<not> next_clickable (s u ! c)" by simp
    with unf c10 view1 have "pages_loop s c d acc = (emit (Print NoAdditionalPage) d1, acc @ [x])"
      by simp
    then show ?thesis using cl c es by simp
  qed
qed

lemma listing_without_marker_harvested:
  assumes "0 < length (s u)" and "length (s u) \<le> 10"
    and "list_all (\<lambda>v. papers_render s v \<and> \<not> next_disabled v) (s u)"
    and "list_all next_clickable (butlast (s u))"
    and "\<not> next_clickable (last (s u))"
  shows "length (snd (process_method_image s d u)) = length (s u) \<and>
         last (events (fst (process_method_image s d u))) = Print NoAdditionalPage"
proof -
  have a: "\<forall>i. 0 \<le> i \<and> i < length (s u) \<longrightarrow> papers_render s (s u ! i) \<and> \<not> next_disabled (s u ! i)"
    using assms(3) by (auto simp: list_all_length)
  have b: "\<forall>i. 0 \<le> i \<and> Suc i < length (s u) \<longrightarrow> next_clickable (s u ! i)"
    using assms(4) by (auto simp: list_all_length nth_butlast)
  have c: "\<not> next_clickable (s u ! (length (s u) - 1))"
    using assms(1,5) by (simp add: last_conv_nth)
  have "current_window (get u d) = \<lparr>tab_url = u, tab_page = 0\<rparr>" by simp
  from pages_loop_to_end[OF this assms(1,2) a b c, of "[]"] show ?thesis
    by (simp add: process_method_image_def)
qed

subsection \<open>The example site\<close>

lemma example_pages:
  "example_site (BASE_URL @ py ''/a'') = [blank]"
  "example_site (BASE_URL @ py ''/b'') = [paper (py '' B '') (py ''on b'')]"
  "example_site (BASE_URL @ py ''/c'') = [paper (py ''C'') (py ''on c'')]"
  "example_site (py ''http://L1'') = [listing [Some (py ''/a''), Some (py ''/b'')] False False]"
  "example_site (py ''http://L2'') =
     [listing [Some (py ''/b'')] True False, listing [Some (py ''/c'')] True True]"
  "example_site (py ''http://L11'') =
     replicate 10 (listing [Some (py ''/b'')] True False) @ [listing [Some (py ''/c'')] True True]"
  "example_site (py ''http://E'') = [listing [] False False]"
  "example_site (py ''http://T'') =
     [blank\<lparr>method_image := [Some (Some (py ''http://L2'')), None, Some None, Some (Some (py ''http://E''))]\<rparr>]"
  by (simp_all add: example_site_def py_def BASE_URL_def)

lemma example_resolve:
  "resolve (py ''/a'') = BASE_URL @ py ''/a''"
  "resolve (py ''/b'') = BASE_URL @ py ''/b''"
  "resolve (py ''/c'') = BASE_URL @ py ''/c''"
  "resolve (py ''http://L2'') = py ''http://L2''"
  "resolve (py ''http://E'') = py ''http://E''"
  by (simp_all add: resolve_def startswith_def py_def)

lemma example_strip:
  "strip (py '' B '') = py ''B''" "strip (py ''on b'') = py ''on b''"
  "strip (py ''C'') = py ''C''" "strip (py ''on c'') = py ''on c''"
  by (simp_all add: strip_def isspace_def py_def)

lemma example_extract:
  "extract_text_from_page example_site (window_open (BASE_URL @ py ''/a'') d) =
     (emit (Print ErrorExtractingText) (window_open (BASE_URL @ py ''/a'') d), EmptyString)"
  "extract_text_from_page example_site (window_open (BASE_URL @ py ''/b'') d) =
     (window_open (BASE_URL @ py ''/b'') d, Tuple (py ''B'') (py ''on b''))"
  by (simp_all add: extract_text_from_page_def example_pages example_strip view_at_def paper_def blank_def)

lemma example_renders:
  "\<not> renders example_site (resolve (py ''/a''))" "renders example_site (resolve (py ''/b''))"
  "renders example_site (resolve (py ''/c''))"
  by (simp_all add: renders_def example_resolve example_pages view_at_def paper_def blank_def)

lemma example_L1_links:
  "black_links (cur_view example_site (get (py ''http://L1'') setup_driver)) = [Some (py ''/a''), Some (py ''/b'')]"
  by (simp add: cur_view_def view_at_def example_pages listing_def)

lemma example_L1_run:
  "process_black_links example_site (get (py ''http://L1'') setup_driver) =
     (emit (Print ErrorProcessingBlackLinks)
        (emit (Print ErrorExtractingText)
           (window_open (BASE_URL @ py ''/a'') (get (py ''http://L1'') setup_driver))),
      \<lparr>pe_title = [], pe_text = []\<rparr>)"
  by (simp add: process_black_links_def example_L1_links example_resolve example_extract)

text \<open>
  Claim C1. The listing \<open>L1\<close> links to two papers; the page of the first never shows
  its abstract, the page of the second renders. \<open>extract_text_from_page\<close> returns the
  empty string for the first, the assignment to \<open>title, text\<close> raises, and the
  \<open>except\<close> of \<open>process_black_links\<close> ends the loop over the URLs: the page entry is
  empty although the second paper renders, and the focus stays on the window of the first
  paper, which is not closed.
\<close>

theorem extraction_failure_ends_page:
  "black_links (cur_view example_site (get (py ''http://L1'') setup_driver)) = [Some (py ''/a''), Some (py ''/b'')] \<and>
   \<not> renders example_site (resolve (py ''/a'')) \<and> renders example_site (resolve (py ''/b'')) \<and>
   snd (process_black_links example_site (get (py ''http://L1'') setup_driver)) = \<lparr>pe_title = [], pe_text = []\<rparr> \<and>
   current_window (fst (process_black_links example_site (get (py ''http://L1'') setup_driver)))
     = \<lparr>tab_url = BASE_URL @ py ''/a'', tab_page = 0\<rparr>"
  using example_L1_run example_L1_links example_renders by simp

lemma process_black_links_single:
  assumes "black_links (cur_view s d) = [Some href]"
    and "paper_abstract (view_at (s (resolve href)) 0) = AbstractText a"
    and "paper_title (view_at (s (resolve href)) 0) = TitleText t"
  shows "snd (process_black_links s d) = \<lparr>pe_title = [strip t], pe_text = [strip a]\<rparr>"
  using assms by (simp add: process_black_links_def extract_text_from_page_def)

lemma example_papers_render:
  "papers_render example_site (listing [Some (py ''/b'')] ck dis)"
  "papers_render example_site (listing [Some (py ''/c'')] ck dis)"
  "papers_render example_site (listing [] ck dis)"
  using example_renders by (simp_all add: papers_render_def listing_def)

lemma example_L2_run:
  "snd (process_method_image example_site setup_driver (py ''http://L2'')) =
     [\<lparr>pe_title = [py ''B''], pe_text = [py ''on b'']\<rparr>]"
proof -
  let ?d = "get (py ''http://L2'') setup_driver"
  have v0: "cur_view example_site ?d = listing [Some (py ''/b'')] True False"
    by (simp add: cur_view_def view_at_def example_pages)
  obtain d1 x where pbl: "process_black_links example_site ?d = (d1, x)"
    by (cases "process_black_links example_site ?d")
  have "snd (process_black_links example_site ?d) = \<lparr>pe_title = [strip (py '' B '')], pe_text = [strip (py ''on b'')]\<rparr>"
    by (rule process_black_links_single[where href = "py ''/b''"])
       (simp_all add: v0 listing_def example_resolve example_pages view_at_def paper_def)
  with pbl have x: "x = \<lparr>pe_title = [py ''B''], pe_text = [py ''on b'']\<rparr>"
    by (simp add: example_strip)
  have "current_window (fst (process_black_links example_site ?d)) = current_window ?d"
    using process_black_links_renders[of example_site ?d] v0 example_papers_render by simp
  with pbl have cw: "current_window d1 = \<lparr>tab_url = py ''http://L2'', tab_page = 0\<rparr>" by simp
  have v1: "cur_view example_site d1 = listing [Some (py ''/b'')] True False"
    using cw by (simp add: cur_view_def view_at_def example_pages)
  then have cw2: "current_window (click example_site d1) = \<lparr>tab_url = py ''http://L2'', tab_page = 1\<rparr>"
    using cw by (simp add: example_pages listing_def)
  have v2: "cur_view example_site (click example_site d1) = listing [Some (py ''/c'')] True True"
    using cw2 by (simp add: cur_view_def view_at_def example_pages)
  have "pages_loop example_site 0 ?d [] = (click example_site d1, [x])"
    using pages_loop_unfold[OF pbl, of 0 "[]"] v1 v2 by (simp add: listing_def)
  then show ?thesis using x by (simp add: process_method_image_def)
qed

text \<open>
  Claim C3. The listing \<open>L2\<close> has two pages; the next control of the first is
  clickable, that of the second, the last, carries the disabled marker. The click on the
  first page shows the second, the marker is found and the loop ends: the result holds the
  entry of the first page only, and the paper of the second page is never harvested.
\<close>

theorem last_page_not_harvested:
  "example_site (py ''http://L2'') =
     [listing [Some (py ''/b'')] True False, listing [Some (py ''/c'')] True True] \<and>
   renders example_site (resolve (py ''/c'')) \<and>
   snd (process_method_image example_site setup_driver (py ''http://L2'')) =
     [\<lparr>pe_title = [py ''B''], pe_text = [py ''on b'']\<rparr>]"
  using example_pages(5) example_renders(3) example_L2_run by simp

text \<open>
  Claim C5. In every page entry that \<open>process_method_image\<close> returns, the title list
  and the text list have the same length; so have they in what \<open>process_black_links\<close>
  returns, and the loop over the paper URLs keeps the two lengths equal, whether an
  extraction fails or not.
\<close>

theorem title_text_lengths_equal:
  "(\<forall>e\<in>set (snd (process_method_image s d url)). length (pe_title e) = length (pe_text e)) \<and>
   length (pe_title (snd (process_black_links s d))) = length (pe_text (snd (process_black_links s d))) \<and>
   (length (pe_title ex) = length (pe_text ex) \<longrightarrow>
      length (pe_title (fst (snd (urls_loop s w urls d ex)))) =
      length (pe_text (fst (snd (urls_loop s w urls d ex)))))"
proof -
  have "\<forall>e\<in>set (snd (process_method_image s d url)). length (pe_title e) = length (pe_text e)"
    using pages_loop_general[of s 0 "get url d" "[]"] by (auto simp: process_method_image_def)
  moreover have "length (pe_title ex) = length (pe_text ex) \<longrightarrow>
      length (pe_title (fst (snd (urls_loop s w urls d ex)))) =
      length (pe_text (fst (snd (urls_loop s w urls d ex))))"
    using urls_loop_balanced[of s w urls d ex] by (cases "urls_loop s w urls d ex") auto
  ultimately show ?thesis using process_black_links_balanced by blast
qed

theorem title_text_lengths_equal_witness:
  "\<lparr>pe_title = [py ''B''], pe_text = [py ''on b'']\<rparr>
     \<in> set (snd (process_method_image example_site setup_driver (py ''http://L2''))) \<and>
   length (pe_title \<lparr>pe_title = [py ''B''], pe_text = [py ''on b'']\<rparr>) =
   length (pe_text \<lparr>pe_title = [py ''B''], pe_text = [py ''on b'']\<rparr>) \<and>
   length (pe_title \<lparr>pe_title = [], pe_text = []\<rparr>) = length (pe_text \<lparr>pe_title = [], pe_text = []\<rparr>) \<and>
   length (pe_title (fst (snd (urls_loop example_site \<lparr>tab_url = py ''http://L1'', tab_page = 0\<rparr>
       [BASE_URL @ py ''/b'', BASE_URL @ py ''/a''] (get (py ''http://L1'') setup_driver)
       \<lparr>pe_title = [], pe_text = []\<rparr>)))) = 1"
proof -
  have "fst (snd (urls_loop example_site \<lparr>tab_url = py ''http://L1'', tab_page = 0\<rparr>
       [BASE_URL @ py ''/b'', BASE_URL @ py ''/a''] (get (py ''http://L1'') setup_driver)
       \<lparr>pe_title = [], pe_text = []\<rparr>)) = \<lparr>pe_title = [py ''B''], pe_text = [py ''on b'']\<rparr>"
    by (simp add: example_extract)
  then show ?thesis
    using title_text_lengths_equal[of example_site setup_driver "py ''http://L2''"
        "\<lparr>pe_title = [], pe_text = []\<rparr>" "\<lparr>tab_url = py ''http://L1'', tab_page = 0\<rparr>"
        "[BASE_URL @ py ''/b'', BASE_URL @ py ''/a'']"]
      example_L2_run
    by simp
qed

text \<open>
  Claim C7. When the current listing page shows no paper link, \<open>process_black_links\<close>
  returns the empty page entry and only prints its error message. A round of the loop of
  \<open>process_method_image\<close> on such a page, before the tenth, appends this entry once and
  nothing else: it then either clicks the next control and stops on a disabled marker,
  or clicks and goes on with the next round, or stops for want of a next control. Whatever
  the later rounds append comes after this entry, at most one entry for each round left.
\<close>

theorem empty_page_entry:
  assumes "black_links (cur_view s d) = []" and "page_counter < 10"
  shows "process_black_links s d =
           (emit (Print ErrorProcessingBlackLinks) d, \<lparr>pe_title = [], pe_text = []\<rparr>) \<and>
    pages_loop s page_counter d acc =
      (if next_clickable (cur_view s d) then
         (if next_disabled (cur_view s (click s (emit (Print ErrorProcessingBlackLinks) d)))
          then (click s (emit (Print ErrorProcessingBlackLinks) d),
                acc @ [\<lparr>pe_title = [], pe_text = []\<rparr>])
          else pages_loop s (page_counter + 1) (click s (emit (Print ErrorProcessingBlackLinks) d))
                 (acc @ [\<lparr>pe_title = [], pe_text = []\<rparr>]))
       else (emit (Print NoAdditionalPage) (emit (Print ErrorProcessingBlackLinks) d),
             acc @ [\<lparr>pe_title = [], pe_text = []\<rparr>])) \<and>
    (\<exists>rest. snd (pages_loop s page_counter d acc) = acc @ \<lparr>pe_title = [], pe_text = []\<rparr> # rest \<and>
            length rest \<le> 9 - page_counter)"
proof -
  have pbl: "process_black_links s d =
           (emit (Print ErrorProcessingBlackLinks) d, \<lparr>pe_title = [], pe_text = []\<rparr>)"
    using assms(1) by (simp add: process_black_links_def)
  have round: "pages_loop s page_counter d acc =
      (if next_clickable (cur_view s d) then
         (if next_disabled (cur_view s (click s (emit (Print ErrorProcessingBlackLinks) d)))
          then (click s (emit (Print ErrorProcessingBlackLinks) d),
                acc @ [\<lparr>pe_title = [], pe_text = []\<rparr>])
          else pages_loop s (page_counter + 1) (click s (emit (Print ErrorProcessingBlackLinks) d))
                 (acc @ [\<lparr>pe_title = [], pe_text = []\<rparr>]))
       else (emit (Print NoAdditionalPage) (emit (Print ErrorProcessingBlackLinks) d),
             acc @ [\<lparr>pe_title = [], pe_text = []\<rparr>]))"
    using pages_loop_unfold[OF pbl, of page_counter acc] assms(2) by simp
  from pages_loop_general[of s page_counter d acc] assms(2) obtain rest where
    r: "snd (pages_loop s page_counter d acc) = acc @ rest" "rest \<noteq> []"
       "hd rest = snd (process_black_links s d)" "length rest \<le> 10 - page_counter" by blast
  then obtain tl0 where tl0: "rest = \<lparr>pe_title = [], pe_text = []\<rparr> # tl0"
    using pbl by (cases rest) simp_all
  with r(4) have "length tl0 \<le> 9 - page_counter" by simp
  with r(1) tl0 have "\<exists>rest. snd (pages_loop s page_counter d acc) = acc @ \<lparr>pe_title = [], pe_text = []\<rparr> # rest \<and>
            length rest \<le> 9 - page_counter" by blast
  with pbl round show ?thesis by blast
qed

theorem empty_page_entry_witness:
  "black_links (cur_view example_site (get (py ''http://E'') setup_driver)) = [] \<and> (0::nat) < 10 \<and>
   process_method_image example_site setup_driver (py ''http://E'') =
     (emit (Print NoAdditionalPage)
        (emit (Print ErrorProcessingBlackLinks) (get (py ''http://E'') setup_driver)),
      [\<lparr>pe_title = [], pe_text = []\<rparr>])"
proof -
  have v: "cur_view example_site (get (py ''http://E'') setup_driver) = listing [] False False"
    by (simp add: cur_view_def view_at_def example_pages)
  then have b: "black_links (cur_view example_site (get (py ''http://E'') setup_driver)) = []"
    and nc: "\<not> next_clickable (cur_view example_site (get (py ''http://E'') setup_driver))"
    by (simp_all add: listing_def)
  have c: "(0::nat) < 10" by simp
  from empty_page_entry[OF b c, of "[]"] b nc show ?thesis
    by (simp add: process_method_image_def)
qed

subsection \<open>The ten page ceiling\<close>

lemma ten_pages_run:
  assumes "10 \<le> length (s u)"
    and "list_all (\<lambda>v. papers_render s v \<and> \<not> next_disabled v) (take 10 (s u))"
    and "list_all next_clickable (take 9 (s u))"
  shows "length (snd (process_method_image s d u)) = 10 \<and>
     (next_clickable (s u ! 9) \<and> 10 < length (s u) \<longrightarrow>
        current_window (fst (process_method_image s d u)) = \<lparr>tab_url = u, tab_page = 10\<rparr> \<and>
        count_list (events (fst (process_method_image s d u))) Click = count_list (events d) Click + 10)"
proof -
  have a: "\<forall>i. 0 \<le> i \<and> i < 10 \<longrightarrow> i < length (s u) \<and> papers_render s (s u ! i) \<and> \<not> next_disabled (s u ! i)"
    using assms(1,2) by (auto simp: list_all_length)
  have b: "\<forall>i. 0 \<le> i \<and> i < 9 \<longrightarrow> next_clickable (s u ! i)"
    using assms(1,3) by (auto simp: list_all_length)
  have "current_window (get u d) = \<lparr>tab_url = u, tab_page = 0\<rparr>" by simp
  from pages_loop_run[OF this _ a b, of "[]"] show ?thesis
    by (simp add: process_method_image_def)
qed

text \<open>
  Claim C4, as the code has it. \<open>process_method_image\<close> returns at most 10 page entries
  and clicks the next control at most 10 times, whatever the site. On a listing of at least
  10 pages whose first 10 pages show no disabled marker and link only to papers that
  render, and whose first 9 pages offer a clickable next control, it returns exactly 10
  entries. If the 10th page offers a clickable next control too and an 11th page exists,
  the 10th click is made after the 10th page has been harvested: the session ends on the
  11th page, which is not harvested.
\<close>

theorem ten_page_ceiling:
  "length (snd (process_method_image s d u)) \<le> 10 \<and>
   count_list (events (fst (process_method_image s d u))) Click \<le> count_list (events d) Click + 10 \<and>
   (10 \<le> length (s u) \<and>
    list_all (\<lambda>v. papers_render s v \<and> \<not> next_disabled v) (take 10 (s u)) \<and>
    list_all next_clickable (take 9 (s u)) \<longrightarrow>
      length (snd (process_method_image s d u)) = 10 \<and>
      (next_clickable (s u ! 9) \<and> 10 < length (s u) \<longrightarrow>
         current_window (fst (process_method_image s d u)) = \<lparr>tab_url = u, tab_page = 10\<rparr> \<and>
         count_list (events (fst (process_method_image s d u))) Click = count_list (events d) Click + 10))"
proof -
  from pages_loop_general[of s 0 "get u d" "[]"]
  have "length (snd (process_method_image s d u)) \<le> 10"
    and "count_list (events (fst (process_method_image s d u))) Click \<le> count_list (events d) Click + 10"
    by (auto simp: process_method_image_def)
  then show ?thesis using ten_pages_run[of s u d] by blast
qed

lemma example_L11_facts:
  "length (example_site (py ''http://L11'')) = 11"
  "list_all (\<lambda>v. papers_render example_site v \<and> \<not> next_disabled v) (take 10 (example_site (py ''http://L11'')))"
  "list_all next_clickable (take 9 (example_site (py ''http://L11'')))"
  "next_clickable (example_site (py ''http://L11'') ! 9)"
proof -
  show "length (example_site (py ''http://L11'')) = 11" by (simp add: example_pages)
  show "list_all (\<lambda>v. papers_render example_site v \<and> \<not> next_disabled v) (take 10 (example_site (py ''http://L11'')))"
    using example_papers_render(1)[of True False] by (simp add: example_pages list_all_iff listing_def)
  show "list_all next_clickable (take 9 (example_site (py ''http://L11'')))"
    by (simp add: example_pages list_all_iff listing_def)
  show "next_clickable (example_site (py ''http://L11'') ! 9)"
    by (simp add: example_pages nth_append listing_def)
qed

theorem ten_page_ceiling_witness:
  "10 \<le> length (example_site (py ''http://L11'')) \<and>
   list_all (\<lambda>v. papers_render example_site v \<and> \<not> next_disabled v) (take 10 (example_site (py ''http://L11''))) \<and>
   list_all next_clickable (take 9 (example_site (py ''http://L11''))) \<and>
   next_clickable (example_site (py ''http://L11'') ! 9) \<and> 10 < length (example_site (py ''http://L11'')) \<and>
   length (snd (process_method_image example_site setup_driver (py ''http://L11''))) = 10 \<and>
   count_list (events (fst (process_method_image example_site setup_driver (py ''http://L11'')))) Click = 10"
  using ten_page_ceiling[of example_site setup_driver "py ''http://L11''"] example_L11_facts
  by (simp add: setup_driver_def)

text \<open>
  On the listing \<open>L11\<close> of eleven pages the session is moved beyond the tenth harvested
  page: ten clicks, and the window ends on the eleventh page.
\<close>

theorem eleventh_page_visited:
  "length (example_site (py ''http://L11'')) = 11 \<and>
   length (snd (process_method_image example_site setup_driver (py ''http://L11''))) = 10 \<and>
   tab_page (current_window (fst (process_method_image example_site setup_driver (py ''http://L11'')))) = 10 \<and>
   count_list (events (fst (process_method_image example_site setup_driver (py ''http://L11'')))) Click = 10"
  using ten_pages_run[of example_site "py ''http://L11''" setup_driver] example_L11_facts
  by (simp add: setup_driver_def)

subsection \<open>process_topic_link\<close>

lemma group_links_length: "length (group_links divs) \<le> length divs"
  by (induction divs rule: group_links.induct) simp_all

lemma method_divs_loop_result:
  "method_divs_loop divs d links =
     (d\<lparr>events := events d @ replicate (length divs - length (group_links divs)) (Print ErrorExtractingMethodImageLink)\<rparr>,
      links @ group_links divs)"
proof (induction divs arbitrary: d links)
  case Nil
  then show ?case by simp
next
  case (Cons x divs)
  note le = group_links_length[of divs]
  show ?case
  proof (cases x)
    case None
    with Cons le show ?thesis by (simp add: emit_def Suc_diff_le replicate_app_Cons_same)
  next
    case (Some y)
    show ?thesis
    proof (cases y)
      case None
      with Some Cons le show ?thesis by (simp add: emit_def Suc_diff_le replicate_app_Cons_same)
    next
      case (Some href)
      with \<open>x = Some y\<close> Cons show ?thesis by simp
    qed
  qed
qed

lemma process_method_image_gets:
  "gets (events (fst (process_method_image s d link))) = gets (events d) @ [link]"
  using pages_loop_general[of s 0 "get link d" "[]"]
  by (auto simp: process_method_image_def gets_append)

lemma method_links_loop_result:
  "method_links_loop s links d results = (d', results') \<Longrightarrow>
     fst ` set results' = set links \<union> fst ` set results \<and>
     (distinct (map fst results) \<longrightarrow> distinct (map fst results')) \<and>
     gets (events d') = gets (events d) @ links \<and>
     (\<forall>k\<in>set links. \<exists>d0. map_of results' k = Some (snd (process_method_image s d0 k))) \<and>
     (\<forall>k. k \<notin> set links \<longrightarrow> map_of results' k = map_of results k)"
proof (induction links arbitrary: d results)
  case Nil
  then show ?case by simp
next
  case (Cons link links)
  let ?d0 = "emit (Print (ProcessingMethodImageLink link)) d"
  obtain d1 tt where pmi: "process_method_image s ?d0 link = (d1, tt)"
    by (cases "process_method_image s ?d0 link")
  let ?r1 = "AList.update link tt results"
  from Cons.prems pmi have rec: "method_links_loop s links d1 ?r1 = (d', results')" by simp
  note ih = Cons.IH[OF rec]
  have g1: "gets (events d1) = gets (events d) @ [link]"
    using process_method_image_gets[of s ?d0 link] pmi by (simp add: gets_append)
  have tt: "tt = snd (process_method_image s ?d0 link)" using pmi by simp
  have keys: "fst ` set results' = set (link # links) \<union> fst ` set results"
    using ih by (auto simp: AList.dom_update)
  have dist: "distinct (map fst results) \<longrightarrow> distinct (map fst results')"
    using ih by (simp add: AList.distinct_update)
  have gs: "gets (events d') = gets (events d) @ link # links" using ih g1 by simp
  have out: "\<forall>k. k \<notin> set (link # links) \<longrightarrow> map_of results' k = map_of results k"
    using ih by (simp add: AList.update_conv')
  have inn: "\<forall>k\<in>set (link # links). \<exists>d0. map_of results' k = Some (snd (process_method_image s d0 k))"
  proof
    fix k assume k: "k \<in> set (link # links)"
    show "\<exists>d0. map_of results' k = Some (snd (process_method_image s d0 k))"
    proof (cases "k \<in> set links")
      case True
      with ih show ?thesis by blast
    next
      case False
      with k have "k = link" by simp
      moreover from False ih have "map_of results' k = map_of ?r1 k" by blast
      ultimately have "map_of results' k = Some (snd (process_method_image s ?d0 k))"
        using tt by (simp add: AList.update_conv')
      then show ?thesis by blast
    qed
  qed
  from keys dist gs out inn show ?case by blast
qed

text \<open>
  Claim C8. \<open>process_topic_link\<close> on a topic page: with no method group in sight it
  returns the empty mapping. Otherwise it reads the first 20 group containers; a container
  without anchor or without \<open>href\<close> is left out with one logged line each, an \<open>href\<close> that
  does not start with \<open>http\<close> is prefixed with the base URL; the keys of the result are
  exactly the links read, each mapped to what one call of \<open>process_method_image\<close> on it
  returned, and the session was sent to the topic page and then to the links, in the order
  of the containers.
\<close>

theorem topic_groups_crawled:
  assumes "divs = method_image (cur_view s (get topic_url d))"
    and "r = process_topic_link s d topic_url"
  shows "(divs = [] \<longrightarrow> snd r = [] \<and> gets (events (fst r)) = gets (events d) @ [topic_url]) \<and>
     (divs \<noteq> [] \<longrightarrow>
        fst ` set (snd r) = set (group_links (take 20 divs)) \<and> distinct (map fst (snd r)) \<and>
        (\<forall>k\<in>set (group_links (take 20 divs)).
            \<exists>d0. map_of (snd r) k = Some (snd (process_method_image s d0 k))) \<and>
        gets (events (fst r)) = gets (events d) @ topic_url # group_links (take 20 divs)) \<and>
     method_divs_loop (take 20 divs) (get topic_url d) [] =
       ((get topic_url d)\<lparr>events := events (get topic_url d) @
           replicate (length (take 20 divs) - length (group_links (take 20 divs)))
             (Print ErrorExtractingMethodImageLink)\<rparr>,
        group_links (take 20 divs)) \<and>
     (\<forall>href. group_links [Some (Some href)] =
        [if startswith href (py ''http'') then href else BASE_URL @ href])"
proof -
  let ?d1 = "get topic_url d"
  let ?links = "group_links (take 20 divs)"
  let ?d2 = "?d1\<lparr>events := events ?d1 @
           replicate (length (take 20 divs) - length ?links) (Print ErrorExtractingMethodImageLink)\<rparr>"
  have mdl: "method_divs_loop (take 20 divs) ?d1 [] = (?d2, ?links)"
    using method_divs_loop_result[of "take 20 divs" ?d1 "[]"] by simp
  have res: "\<forall>href. group_links [Some (Some href)] =
        [if startswith href (py ''http'') then href else BASE_URL @ href]"
    by (simp add: resolve_def)
  have empty: "divs = [] \<longrightarrow> snd r = [] \<and> gets (events (fst r)) = gets (events d) @ [topic_url]"
    using assms by (simp add: process_topic_link_def Let_def gets_append)
  have full: "divs \<noteq> [] \<longrightarrow>
        fst ` set (snd r) = set ?links \<and> distinct (map fst (snd r)) \<and>
        (\<forall>k\<in>set ?links. \<exists>d0. map_of (snd r) k = Some (snd (process_method_image s d0 k))) \<and>
        gets (events (fst r)) = gets (events d) @ topic_url # ?links"
  proof
    assume ne: "divs \<noteq> []"
    obtain d' results' where mll: "method_links_loop s ?links ?d2 [] = (d', results')"
      by (cases "method_links_loop s ?links ?d2 []")
    have r: "r = (d', results')"
      using assms ne mdl mll by (simp add: process_topic_link_def Let_def)
    have g2: "gets (events ?d2) = gets (events d) @ [topic_url]"
    proof -
      have "gets (replicate n (Print ErrorExtractingMethodImageLink)) = []" for n
        by (induction n) simp_all
      then show ?thesis by (simp add: gets_append)
    qed
    note mr = method_links_loop_result[OF mll]
    have k: "fst ` set results' = set ?links" using mr by simp
    have di: "distinct (map fst results')" using mr by simp
    have ge: "gets (events d') = gets (events d) @ topic_url # ?links" using mr g2 by simp
    have va: "\<forall>k\<in>set ?links. \<exists>d0. map_of results' k = Some (snd (process_method_image s d0 k))"
      using mr by blast
    from k di ge va
    show "fst ` set (snd r) = set ?links \<and> distinct (map fst (snd r)) \<and>
        (\<forall>k\<in>set ?links. \<exists>d0. map_of (snd r) k = Some (snd (process_method_image s d0 k))) \<and>
        gets (events (fst r)) = gets (events d) @ topic_url # ?links"
      unfolding r fst_conv snd_conv by blast
  qed
  from empty full mdl res show ?thesis by blast
qed

theorem topic_groups_crawled_witness:
  "method_image (cur_view example_site (get (py ''http://T'') setup_driver)) =
     [Some (Some (py ''http://L2'')), None, Some None, Some (Some (py ''http://E''))] \<and>
   fst ` set (snd (process_topic_link example_site setup_driver (py ''http://T''))) =
     {py ''http://L2'', py ''http://E''} \<and>
   gets (events (fst (process_topic_link example_site setup_driver (py ''http://T'')))) =
     [py ''http://T'', py ''http://L2'', py ''http://E'']"
proof -
  have divs: "method_image (cur_view example_site (get (py ''http://T'') setup_driver)) =
     [Some (Some (py ''http://L2'')), None, Some None, Some (Some (py ''http://E''))]"
    by (simp add: cur_view_def view_at_def example_pages)
  have gl: "group_links (take 20 [Some (Some (py ''http://L2'')), None, Some None, Some (Some (py ''http://E''))])
      = [py ''http://L2'', py ''http://E'']"
    by (simp add: example_resolve)
  show ?thesis
    using topic_groups_crawled[OF refl refl, where s = example_site and topic_url = "py ''http://T''"
        and d = setup_driver]
    unfolding divs gl by (simp add: setup_driver_def)
qed


section \<open>Properties of the saved document\<close>

subsection \<open>The first token of a text\<close>








subsection \<open>The counts of a topic summary\<close>







subsection \<open>Writing and reading back\<close>




lemma tuple_not_round_trip: "json_load (json_dump (PTuple [PNone])) \<noteq> PTuple [PNone]"
  by simp















subsection \<open>The saved file\<close>









end
